theory Spec2Isabelle
  imports Main
begin

section \<open>Primitives shared by the runners and the synchronisers\<close>

text \<open>
  The module is single-threaded cooperative code on an asyncio event loop. A coroutine
  runs until it suspends in an \<^verbatim>\<open>await\<close>; only then can other code run. An
  \<^verbatim>\<open>asyncio.Event\<close> is a latch: \<^verbatim>\<open>set()\<close> asserts it, \<^verbatim>\<open>clear()\<close> resets it,
  and \<^verbatim>\<open>await wait()\<close> returns at once when it is asserted and suspends otherwise.
  A latch is modelled by its boolean value.
\<close>

datatype error = TimeoutError | CancelledError | AttributeError | IndexError

text \<open>
  \<^verbatim>\<open>asyncio.wait_for(latch.wait(), timeout)\<close>. The list holds what the rest of the
  program does before the timeout expires, in order; \<open>step\<close> is the effect of one such
  occurrence on the observed object and is \<open>None\<close> when the event loop never gets control
  back. The wait is over as soon as the latch is asserted; when the list is used up and the
  latch is still not asserted, the timeout has expired and \<^verbatim>\<open>TimeoutError\<close> is raised.
\<close>

fun wait_for :: "('e \<Rightarrow> 's \<Rightarrow> 's option) \<Rightarrow> ('s \<Rightarrow> bool) \<Rightarrow> 'e list \<Rightarrow> 's \<Rightarrow> ((error + unit) \<times> 's) option" where
  "wait_for step latch [] s = Some (if latch s then Inr () else Inl TimeoutError, s)"
| "wait_for step latch (e # es) s =
     (if latch s then Some (Inr (), s)
      else case step e s of None \<Rightarrow> None | Some s' \<Rightarrow> wait_for step latch es s')"

section \<open>Synchronisers\<close>

subsection \<open>AcknowledgeSyncer\<close>

record syncer =
  event :: bool

record acknowledge_syncer = syncer +
  count :: int


text \<open>\<^verbatim>\<open>excecute\<close>: decrement, then assert the latch when the count is not positive.\<close>

definition ack_excecute :: "acknowledge_syncer \<Rightarrow> acknowledge_syncer" where
  "ack_excecute a =
     (let a1 = a\<lparr>count := count a - 1\<rparr>
      in if count a1 \<le> 0 then a1\<lparr>event := True\<rparr> else a1)"

datatype ack_call = AckExcecute


fun ack_calls :: "ack_call list \<Rightarrow> acknowledge_syncer \<Rightarrow> acknowledge_syncer" where
  "ack_calls [] a = a"
| "ack_calls (c # cs) a = ack_calls cs (ack_excecute a)"


subsection \<open>BlockSyncer\<close>

text \<open>
  The callers of \<^verbatim>\<open>excecute\<close> are named by numbers. \<open>suspended\<close> holds the callers
  waiting on the latch, \<open>completed\<close> those whose \<^verbatim>\<open>excecute\<close> has returned.
\<close>

record block_syncer = syncer +
  suspended :: "nat list"
  completed :: "nat list"

definition BlockSyncer :: block_syncer where
  "BlockSyncer = \<lparr>event = False, suspended = [], completed = []\<rparr>"

definition block_excecute :: "nat \<Rightarrow> block_syncer \<Rightarrow> block_syncer" where
  "block_excecute c b =
     (if event b then b\<lparr>completed := completed b @ [c]\<rparr>
      else b\<lparr>suspended := suspended b @ [c]\<rparr>)"

text \<open>\<^verbatim>\<open>restart\<close> asserts the latch, which resumes every waiter of the latch.\<close>

definition restart :: "block_syncer \<Rightarrow> block_syncer" where
  "restart b = b\<lparr>event := True, completed := completed b @ suspended b, suspended := []\<rparr>"

definition asyncRestart :: "block_syncer \<Rightarrow> block_syncer" where
  "asyncRestart b = restart b"

datatype block_call = Excecute nat | Restart | AsyncRestart

fun block_apply :: "block_call \<Rightarrow> block_syncer \<Rightarrow> block_syncer" where
  "block_apply (Excecute c) b = block_excecute c b"
| "block_apply Restart b = restart b"
| "block_apply AsyncRestart b = asyncRestart b"

fun block_calls :: "block_call list \<Rightarrow> block_syncer \<Rightarrow> block_syncer" where
  "block_calls [] b = b"
| "block_calls (c # cs) b = block_calls cs (block_apply c b)"

fun excecute_callers :: "block_call list \<Rightarrow> nat list" where
  "excecute_callers [] = []"
| "excecute_callers (Excecute c # cs) = c # excecute_callers cs"
| "excecute_callers (_ # cs) = excecute_callers cs"

fun is_restart :: "block_call \<Rightarrow> bool" where
  "is_restart (Excecute c) = False"
| "is_restart Restart = True"
| "is_restart AsyncRestart = True"

section \<open>Tasks\<close>

text \<open>
  A task is a pair of a callable and its arguments. What a callable does when it is
  executed is opaque to the runner; the model records its name (\<^verbatim>\<open>__name__\<close>) and
  whether its execution returns or raises. The closure \<^verbatim>\<open>wrapper\<close> built by
  \<^verbatim>\<open>DocumentBatchedOrderedRunner.run\<close> is a callable of its own, named \<^verbatim>\<open>wrapper\<close>,
  that holds the wrapped function and the handler.
\<close>

datatype outcome = Returns | Raises string

datatype fn = Fn (fname: string) (behaviour: outcome)

datatype callable = Plain fn | Wrapper fn fn

type_synonym task = "callable \<times> nat list"

fun name_of :: "callable \<Rightarrow> string" where
  "name_of (Plain f) = fname f"
| "name_of (Wrapper f h) = ''wrapper''"

text \<open>\<^verbatim>\<open>await c(*args)\<close>: the wrapper calls the function, then awaits the handler.\<close>

fun await_outcome :: "callable \<Rightarrow> outcome" where
  "await_outcome (Plain f) = behaviour f"
| "await_outcome (Wrapper f h) =
     (case behaviour f of Raises e \<Rightarrow> Raises e | Returns \<Rightarrow> behaviour h)"

text \<open>
  \<^verbatim>\<open>c(*args)\<close> without \<^verbatim>\<open>await\<close>: calling the coroutine function \<^verbatim>\<open>wrapper\<close> only
  creates a coroutine object, nothing of its body runs.
\<close>

fun call_outcome :: "callable \<Rightarrow> outcome" where
  "call_outcome (Plain f) = behaviour f"
| "call_outcome (Wrapper f h) = Returns"

text \<open>
  The observable actions of a runner: a task's await begins and ends, a batchable task is
  called without being awaited, a batch handler is awaited.
\<close>

datatype action = Started task | Ended task | Invoked task | AwaitedHandler fn

text \<open>What the body of an awaited task does before it first suspends.\<close>

fun body :: "task \<Rightarrow> action list" where
  "body (Plain f, a) = []"
| "body (Wrapper f h, a) =
     Invoked (Plain f, a) # (case behaviour f of Raises e \<Rightarrow> [] | Returns \<Rightarrow> [AwaitedHandler h])"

section \<open>OrderedRunner\<close>

datatype log_entry = TaskError string | CloseoutTimeout bool string "string list"

text \<open>
  The state of the coroutine \<^verbatim>\<open>__run\<close> held in \<^verbatim>\<open>__maintask\<close>: not yet started;
  running at the head of \<^verbatim>\<open>while True\<close>; suspended waiting for \<^verbatim>\<open>__syncEvent\<close>;
  suspended in the await of a task; suspended in the await of a batch handler, with the
  task that ended the batch; cancelled; terminated by an exception.
\<close>

datatype coro = Created | Top | WaitSync | Awaiting task | AwaitingHandler fn "task option"
  | Cancelled | Failed error

fun task_done :: "coro \<Rightarrow> bool" where
  "task_done Cancelled = True"
| "task_done (Failed e) = True"
| "task_done c = False"

text \<open>
  \<open>logger\<close> holds the entries written to the logger, \<open>trace\<close> the actions of the loop so
  far. \<^verbatim>\<open>OrderedRunner.__init__\<close> does not set \<^verbatim>\<open>__shutdown\<close>; the attribute is only
  written by \<^verbatim>\<open>close\<close> and only read after \<^verbatim>\<open>while True\<close>, which no path reaches.
\<close>

record runner =
  logger :: "log_entry list"
  tasks :: "task list"
  syncEvent :: bool
  finishEvent :: bool
  current :: string
  shutdown :: bool
  maintask :: coro
  trace :: "action list"

definition OrderedRunner :: "log_entry list \<Rightarrow> runner" where
  "OrderedRunner lg = \<lparr>logger = lg, tasks = [], syncEvent = False, finishEvent = False,
     current = [], shutdown = False, maintask = Created, trace = []\<rparr>"

definition run :: "callable \<Rightarrow> nat list \<Rightarrow> 'a runner_scheme \<Rightarrow> 'a runner_scheme" where
  "run fnc args s = s\<lparr>tasks := tasks s @ [(fnc, args)], syncEvent := True\<rparr>"

definition queued :: "'a runner_scheme \<Rightarrow> string list" where
  "queued s = map (\<lambda>t. name_of (fst t)) (tasks s)"

definition sync :: "fn \<Rightarrow> 'a runner_scheme \<Rightarrow> 'a runner_scheme" where
  "sync excecute s = run (Plain excecute) [] s"

text \<open>The except clause of \<^verbatim>\<open>OrderedRunner.__run\<close>: log, go on with \<^verbatim>\<open>while True\<close>.\<close>

definition except :: "string \<Rightarrow> runner \<Rightarrow> runner" where
  "except e s = s\<lparr>logger := logger s @ [TaskError e], maintask := Top\<rparr>"

definition start_task :: "task \<Rightarrow> runner \<Rightarrow> runner" where
  "start_task t s =
     s\<lparr>current := name_of (fst t), trace := trace s @ Started t # body t, maintask := Awaiting t\<rparr>"

text \<open>
  From \<^verbatim>\<open>__finishEvent.clear()\<close> to the first await of a task; \<^verbatim>\<open>pop(0)\<close> on the empty
  list raises IndexError.
\<close>

definition drain :: "runner \<Rightarrow> runner" where
  "drain s =
     (let s1 = s\<lparr>finishEvent := False\<rparr>
      in case tasks s1 of
           [] \<Rightarrow> except ''pop from empty list'' s1
         | t # q \<Rightarrow> start_task t (s1\<lparr>tasks := q\<rparr>))"

text \<open>One pass from the head of \<^verbatim>\<open>while True\<close>.\<close>

definition iteration :: "runner \<Rightarrow> runner" where
  "iteration s = (if syncEvent s then drain s else s\<lparr>maintask := WaitSync\<rparr>)"

text \<open>The awaited task \<open>t\<close> is over: the rest of the inner loop.\<close>

definition after_task :: "task \<Rightarrow> runner \<Rightarrow> runner" where
  "after_task t s =
     (let s1 = s\<lparr>trace := trace s @ [Ended t]\<rparr>
      in case await_outcome (fst t) of
           Raises e \<Rightarrow> except e s1
         | Returns \<Rightarrow>
             (case tasks s1 of
                t' # q \<Rightarrow> start_task t' (s1\<lparr>tasks := q\<rparr>)
              | [] \<Rightarrow> s1\<lparr>finishEvent := True, syncEvent := False, maintask := Top\<rparr>))"

text \<open>
  The coroutine runs until it suspends. It holds the event loop meanwhile, so when it
  never suspends again nothing else ever runs: the result is \<open>None\<close>.
\<close>

partial_function (option) run_loop :: "runner \<Rightarrow> runner option" where
  "run_loop s = (if maintask s = Top then run_loop (iteration s) else Some s)"

text \<open>
  What can happen while the coroutine is suspended: some code calls \<^verbatim>\<open>run\<close>; the event
  loop resumes the coroutine (its first start, or after \<^verbatim>\<open>__syncEvent\<close> was set); the
  awaited task or handler finishes. An occurrence that does not fit the state of the
  coroutine changes nothing. A task that finishes without suspending is a \<open>Complete\<close>
  directly after its start.
\<close>

datatype sched = Submit callable "nat list" | Wake | Complete

fun step :: "sched \<Rightarrow> runner \<Rightarrow> runner option" where
  "step (Submit fnc args) s = Some (run fnc args s)"
| "step Wake s =
     (case maintask s of
        Created \<Rightarrow> run_loop (s\<lparr>finishEvent := True, maintask := Top\<rparr>)
      | WaitSync \<Rightarrow> if syncEvent s then run_loop (drain s) else Some s
      | _ \<Rightarrow> Some s)"
| "step Complete s =
     (case maintask s of
        Awaiting t \<Rightarrow> run_loop (after_task t s)
      | _ \<Rightarrow> Some s)"

text \<open>A schedule, run with the step function \<open>stp\<close> of a runner class.\<close>

fun exec_with :: "(sched \<Rightarrow> 's \<Rightarrow> 's option) \<Rightarrow> sched list \<Rightarrow> 's \<Rightarrow> 's option" where
  "exec_with stp [] s = Some s"
| "exec_with stp (e # es) s = (case stp e s of None \<Rightarrow> None | Some s' \<Rightarrow> exec_with stp es s')"

abbreviation exec :: "sched list \<Rightarrow> runner \<Rightarrow> runner option" where
  "exec \<equiv> exec_with step"

fun submitted :: "sched list \<Rightarrow> task list" where
  "submitted [] = []"
| "submitted (Submit fnc args # es) = (fnc, args) # submitted es"
| "submitted (_ # es) = submitted es"

text \<open>
  \<^verbatim>\<open>waitTillCloseout\<close> and \<^verbatim>\<open>close\<close> have the same text in both runner classes; \<open>stp\<close>
  is the step function of the class. The TimeoutError is caught and logged. \<open>evs\<close> is
  what happens before the timeout expires.
\<close>

definition waitTillCloseout ::
  "(sched \<Rightarrow> 'a runner_scheme \<Rightarrow> 'a runner_scheme option) \<Rightarrow> sched list \<Rightarrow> 'a runner_scheme
     \<Rightarrow> ((error + unit) \<times> 'a runner_scheme) option" where
  "waitTillCloseout stp evs s =
     (case wait_for stp finishEvent evs s of
        None \<Rightarrow> None
      | Some (Inr u, s') \<Rightarrow> Some (Inr (), s')
      | Some (Inl e, s') \<Rightarrow>
          (if e = TimeoutError
           then Some (Inr (), s'\<lparr>logger := logger s' @
                  [CloseoutTimeout (\<not> task_done (maintask s')) (current s') (queued s')]\<rparr>)
           else Some (Inl e, s')))"

text \<open>
  \<^verbatim>\<open>close\<close>: a coroutine that is not done is cancelled at its await (CancelledError is
  not an \<^verbatim>\<open>Exception\<close>, so the except clause of the loop lets it through), and the
  CancelledError of \<^verbatim>\<open>await self.__maintask\<close> is caught. A coroutine that has terminated
  with an exception gives that exception to \<^verbatim>\<open>await self.__maintask\<close>.
\<close>

definition close ::
  "(sched \<Rightarrow> 'a runner_scheme \<Rightarrow> 'a runner_scheme option) \<Rightarrow> sched list \<Rightarrow> 'a runner_scheme
     \<Rightarrow> ((error + unit) \<times> 'a runner_scheme) option" where
  "close stp evs s =
     (case waitTillCloseout stp evs s of
        None \<Rightarrow> None
      | Some (Inl e, s1) \<Rightarrow> Some (Inl e, s1)
      | Some (Inr u, s1) \<Rightarrow>
          (let s2 = s1\<lparr>shutdown := True\<rparr>
           in case maintask s2 of
                Cancelled \<Rightarrow> Some (Inr (), s2\<lparr>finishEvent := True\<rparr>)
              | Failed e \<Rightarrow> Some (Inl e, s2)
              | _ \<Rightarrow> Some (Inr (), s2\<lparr>maintask := Cancelled, finishEvent := True\<rparr>)))"

text \<open>The trace of tasks awaited one after the other.\<close>

fun serial :: "task list \<Rightarrow> action list" where
  "serial [] = []"
| "serial (t # ts) = Started t # body t @ Ended t # serial ts"

fun awaiting :: "coro \<Rightarrow> task list" where
  "awaiting (Awaiting t) = [t]"
| "awaiting c = []"

text \<open>What is appended to the trace when the coroutine suspends in, or resumes from, an await.\<close>

fun prologue :: "coro \<Rightarrow> action list" where
  "prologue (Awaiting t) = Started t # body t"
| "prologue c = []"

fun epilogue :: "coro \<Rightarrow> action list" where
  "epilogue (Awaiting t) = [Ended t]"
| "epilogue c = []"

fun started :: "action list \<Rightarrow> task list" where
  "started [] = []"
| "started (Started t # as) = t # started as"
| "started (_ # as) = started as"


section \<open>BatchedOrderedRunner\<close>

record batched_runner = runner +
  batchHandler :: "string \<rightharpoonup> fn"

definition BatchedOrderedRunner :: "log_entry list \<Rightarrow> batched_runner" where
  "BatchedOrderedRunner lg = \<lparr>logger = lg, tasks = [], syncEvent = False, finishEvent = False,
     current = [], shutdown = False, maintask = Created, trace = [], batchHandler = Map.empty\<rparr>"

definition registerBatchHandler :: "string \<Rightarrow> fn \<Rightarrow> batched_runner \<Rightarrow> batched_runner" where
  "registerBatchHandler fncName batchFnc s = s\<lparr>batchHandler := (batchHandler s)(fncName \<mapsto> batchFnc)\<rparr>"

text \<open>
  The except clause of \<^verbatim>\<open>BatchedOrderedRunner.__run\<close> evaluates \<^verbatim>\<open>self.logger\<close>. The class
  only has the attribute \<^verbatim>\<open>__logger\<close>, so this raises AttributeError from inside the
  handler: nothing is logged and the exception leaves \<^verbatim>\<open>while True\<close> and the coroutine.
\<close>

definition bexcept :: "string \<Rightarrow> batched_runner \<Rightarrow> batched_runner" where
  "bexcept e s = s\<lparr>maintask := Failed AttributeError\<rparr>"

text \<open>
  The inner loop over the batchable tasks named \<open>cur\<close>, from the popped task \<open>bt\<close> and the
  queue \<open>q\<close>: the tasks called, then the exception of a call or the value \<^verbatim>\<open>batchtask\<close>
  has when the loop is left, then the queue that is left.
\<close>

fun batch_loop :: "string \<Rightarrow> task \<Rightarrow> task list \<Rightarrow> task list \<times> (string + task option) \<times> task list" where
  "batch_loop cur bt q =
     (if name_of (fst bt) = cur then
        (case call_outcome (fst bt) of
           Raises e \<Rightarrow> ([bt], Inl e, q)
         | Returns \<Rightarrow>
             (case q of
                [] \<Rightarrow> ([bt], Inr None, [])
              | t # q' \<Rightarrow> (case batch_loop cur t q' of (called, r, q'') \<Rightarrow> (bt # called, r, q''))))
      else ([], Inr (Some bt), q))"

declare batch_loop.simps [simp del]

text \<open>One pass of the outer loop \<^verbatim>\<open>while task\<close> for the popped task \<open>t\<close>, up to its await.\<close>

definition process :: "task \<Rightarrow> batched_runner \<Rightarrow> batched_runner" where
  "process t s =
     (let s1 = s\<lparr>current := name_of (fst t)\<rparr>
      in case batchHandler s1 (current s1) of
           Some h \<Rightarrow>
             (case batch_loop (current s1) t (tasks s1) of
                (called, Inl e, q) \<Rightarrow> bexcept e (s1\<lparr>tasks := q, trace := trace s1 @ map Invoked called\<rparr>)
              | (called, Inr bt, q) \<Rightarrow>
                  s1\<lparr>tasks := q, trace := trace s1 @ map Invoked called @ [AwaitedHandler h],
                     maintask := AwaitingHandler h bt\<rparr>)
         | None \<Rightarrow> s1\<lparr>trace := trace s1 @ Started t # body t, maintask := Awaiting t\<rparr>)"

text \<open>The outer loop is left: back to the head of \<^verbatim>\<open>while True\<close>.\<close>

definition leave_drain :: "batched_runner \<Rightarrow> batched_runner" where
  "leave_drain s = s\<lparr>current := [], finishEvent := True, syncEvent := False, maintask := Top\<rparr>"

definition bdrain :: "batched_runner \<Rightarrow> batched_runner" where
  "bdrain s =
     (let s1 = s\<lparr>finishEvent := False\<rparr>
      in case tasks s1 of
           [] \<Rightarrow> bexcept ''pop from empty list'' s1
         | t # q \<Rightarrow> process t (s1\<lparr>tasks := q\<rparr>))"

definition biteration :: "batched_runner \<Rightarrow> batched_runner" where
  "biteration s = (if syncEvent s then bdrain s else s\<lparr>maintask := WaitSync\<rparr>)"

text \<open>The awaited task is over: the queue is read again.\<close>

definition bafter_task :: "task \<Rightarrow> batched_runner \<Rightarrow> batched_runner" where
  "bafter_task t s =
     (let s1 = s\<lparr>trace := trace s @ [Ended t]\<rparr>
      in case await_outcome (fst t) of
           Raises e \<Rightarrow> bexcept e s1
         | Returns \<Rightarrow>
             (case tasks s1 of
                t' # q \<Rightarrow> process t' (s1\<lparr>tasks := q\<rparr>)
              | [] \<Rightarrow> leave_drain s1))"

text \<open>
  The awaited batch handler is over: the outer loop goes on with \<^verbatim>\<open>batchtask\<close>, the task
  that ended the batch, and the queue is not read.
\<close>

definition after_handler :: "fn \<Rightarrow> task option \<Rightarrow> batched_runner \<Rightarrow> batched_runner" where
  "after_handler h bt s =
     (case behaviour h of
        Raises e \<Rightarrow> bexcept e s
      | Returns \<Rightarrow> (case bt of Some t \<Rightarrow> process t s | None \<Rightarrow> leave_drain s))"

partial_function (option) brun_loop :: "batched_runner \<Rightarrow> batched_runner option" where
  "brun_loop s = (if maintask s = Top then brun_loop (biteration s) else Some s)"

fun bstep :: "sched \<Rightarrow> batched_runner \<Rightarrow> batched_runner option" where
  "bstep (Submit fnc args) s = Some (run fnc args s)"
| "bstep Wake s =
     (case maintask s of
        Created \<Rightarrow> brun_loop (s\<lparr>finishEvent := True, maintask := Top\<rparr>)
      | WaitSync \<Rightarrow> if syncEvent s then brun_loop (bdrain s) else Some s
      | _ \<Rightarrow> Some s)"
| "bstep Complete s =
     (case maintask s of
        Awaiting t \<Rightarrow> brun_loop (bafter_task t s)
      | AwaitingHandler h bt \<Rightarrow> brun_loop (after_handler h bt s)
      | _ \<Rightarrow> Some s)"

abbreviation bexec :: "sched list \<Rightarrow> batched_runner \<Rightarrow> batched_runner option" where
  "bexec \<equiv> exec_with bstep"

text \<open>
  The trace the specification gives for a queue: the queue is cut into maximal runs of
  tasks of one name; a run whose name has a handler is called task by task and followed
  by one await of the handler; a task whose name has no handler is awaited.
\<close>

definition same_name :: "task \<Rightarrow> task \<Rightarrow> bool" where
  "same_name t u \<longleftrightarrow> name_of (fst u) = name_of (fst t)"

function spec_batched_trace :: "(string \<rightharpoonup> fn) \<Rightarrow> task list \<Rightarrow> action list" where
  "spec_batched_trace H [] = []"
| "spec_batched_trace H (t # ts) =
     (case H (name_of (fst t)) of
        None \<Rightarrow> Started t # body t @ Ended t # spec_batched_trace H ts
      | Some h \<Rightarrow>
          map Invoked (t # takeWhile (same_name t) ts) @
          AwaitedHandler h # spec_batched_trace H (dropWhile (same_name t) ts))"
  by pat_completeness auto
termination
  by (relation "measure (\<lambda>(H, ts). length ts)") (auto simp: length_dropWhile_le less_Suc_eq_le)

section \<open>DocumentBatchedOrderedRunner and DocumentRunner\<close>

text \<open>
  The facade holds a reference to its runner. The runners live in a store, a list, and a
  reference is an index into it; two facades with the same reference share one runner.
\<close>

record facade =
  docRunner :: nat
  handlerTable :: "string \<rightharpoonup> fn"

definition DocumentBatchedOrderedRunner :: "nat \<Rightarrow> facade" where
  "DocumentBatchedOrderedRunner r = \<lparr>docRunner = r, handlerTable = Map.empty\<rparr>"

definition facade_registerBatchHandler :: "string \<Rightarrow> fn \<Rightarrow> facade \<Rightarrow> facade" where
  "facade_registerBatchHandler fncName batchFnc fa =
     fa\<lparr>handlerTable := (handlerTable fa)(fncName \<mapsto> batchFnc)\<rparr>"

definition facade_run :: "fn \<Rightarrow> nat list \<Rightarrow> facade \<Rightarrow> runner list \<Rightarrow> runner list" where
  "facade_run fnc args fa rs =
     (case handlerTable fa (fname fnc) of
        Some handler \<Rightarrow> rs[docRunner fa := run (Wrapper fnc handler) args (rs ! docRunner fa)]
      | None \<Rightarrow> rs[docRunner fa := run (Plain fnc) args (rs ! docRunner fa)])"

definition facade_queued :: "facade \<Rightarrow> runner list \<Rightarrow> string list" where
  "facade_queued fa rs = queued (rs ! docRunner fa)"

text \<open>The class attributes \<^verbatim>\<open>__sender\<close> and \<^verbatim>\<open>__receiver\<close>, and the store of the runners.\<close>

record registry =
  sender :: "string \<rightharpoonup> nat"
  receiver :: "string \<rightharpoonup> nat"
  runners :: "runner list"

definition DocumentRunner :: registry where
  "DocumentRunner = \<lparr>sender = Map.empty, receiver = Map.empty, runners = []\<rparr>"

definition getSenderRunner :: "string \<Rightarrow> log_entry list \<Rightarrow> registry \<Rightarrow> facade \<times> registry" where
  "getSenderRunner docId lg g =
     (case sender g docId of
        None \<Rightarrow>
          (let r = length (runners g)
           in (DocumentBatchedOrderedRunner r,
               g\<lparr>sender := (sender g)(docId \<mapsto> r), runners := runners g @ [OrderedRunner lg]\<rparr>))
      | Some r \<Rightarrow> (DocumentBatchedOrderedRunner r, g))"

definition getReceiverRunner :: "string \<Rightarrow> log_entry list \<Rightarrow> registry \<Rightarrow> facade \<times> registry" where
  "getReceiverRunner docId lg g =
     (case receiver g docId of
        None \<Rightarrow>
          (let r = length (runners g)
           in (DocumentBatchedOrderedRunner r,
               g\<lparr>receiver := (receiver g)(docId \<mapsto> r), runners := runners g @ [OrderedRunner lg]\<rparr>))
      | Some r \<Rightarrow> (DocumentBatchedOrderedRunner r, g))"

datatype reg_call = GetSender string "log_entry list" | GetReceiver string "log_entry list"

fun reg_apply :: "reg_call \<Rightarrow> registry \<Rightarrow> registry" where
  "reg_apply (GetSender docId lg) g = snd (getSenderRunner docId lg g)"
| "reg_apply (GetReceiver docId lg) g = snd (getReceiverRunner docId lg g)"

fun reg_calls :: "reg_call list \<Rightarrow> registry \<Rightarrow> registry" where
  "reg_calls [] g = g"
| "reg_calls (c # cs) g = reg_calls cs (reg_apply c g)"

section \<open>Invariants of the OrderedRunner loop\<close>

text \<open>
  The coroutine is at the head of \<^verbatim>\<open>while True\<close> with \<^verbatim>\<open>__syncEvent\<close> set and an empty
  queue: every pass raises IndexError in \<^verbatim>\<open>pop(0)\<close>, logs it and starts again.
\<close>

definition livelocked :: "runner \<Rightarrow> bool" where
  "livelocked s \<longleftrightarrow> maintask s = Top \<and> syncEvent s \<and> tasks s = []"

text \<open>
  Idle and Draining: while the coroutine waits for \<^verbatim>\<open>__syncEvent\<close> the finish signal is
  asserted, and \<^verbatim>\<open>__syncEvent\<close> is set exactly when tasks are queued; while it awaits a
  task the finish signal is cleared.
\<close>

definition sound :: "runner \<Rightarrow> bool" where
  "sound s \<longleftrightarrow>
     (case maintask s of
        Created \<Rightarrow> syncEvent s \<longleftrightarrow> tasks s \<noteq> []
      | WaitSync \<Rightarrow> finishEvent s \<and> (syncEvent s \<longleftrightarrow> tasks s \<noteq> [])
      | Awaiting t \<Rightarrow> syncEvent s \<and> \<not> finishEvent s
      | _ \<Rightarrow> False)"

text \<open>
  \<open>sub\<close>, the tasks submitted so far, are the tasks that are over, then the task being
  awaited, then the queue; the trace is the serial trace of the tasks that are over,
  followed by the start of the task being awaited.
\<close>

definition ordered :: "task list \<Rightarrow> runner \<Rightarrow> bool" where
  "ordered sub s \<longleftrightarrow>
     sound s \<and>
     (\<exists>dn. sub = dn @ awaiting (maintask s) @ tasks s \<and> trace s = serial dn @ prologue (maintask s))"

section \<open>Invariants of the BatchedOrderedRunner loop\<close>

text \<open>
  For a queue whose tasks and handlers all return: the tasks the loop still has to take
  up once its await is over, the trace the specification expects at the end, and the
  states the loop goes through.
\<close>

definition returns :: "task \<Rightarrow> bool" where
  "returns t \<longleftrightarrow> await_outcome (fst t) = Returns \<and> call_outcome (fst t) = Returns"

definition pending :: "batched_runner \<Rightarrow> task list" where
  "pending s =
     (case maintask s of
        Awaiting t \<Rightarrow> tasks s
      | AwaitingHandler h bt \<Rightarrow> (case bt of Some t \<Rightarrow> t # tasks s | None \<Rightarrow> tasks s)
      | _ \<Rightarrow> [])"

definition expected :: "batched_runner \<Rightarrow> action list" where
  "expected s = trace s @ epilogue (maintask s) @ spec_batched_trace (batchHandler s) (pending s)"

definition good :: "batched_runner \<Rightarrow> bool" where
  "good s \<longleftrightarrow>
     (\<forall>n h. batchHandler s n = Some h \<longrightarrow> behaviour h = Returns) \<and>
     list_all returns (pending s) \<and>
     (case maintask s of
        Awaiting t \<Rightarrow> returns t
      | AwaitingHandler h bt \<Rightarrow> behaviour h = Returns \<and> (bt = None \<longrightarrow> tasks s = [])
      | _ \<Rightarrow> False)"

section \<open>Invariant of the registry\<close>

text \<open>
  Every reference of the registry points into the store, and no two entries, of one
  table or of the two, hold the same reference.
\<close>

definition reg_inv :: "registry \<Rightarrow> bool" where
  "reg_inv g \<longleftrightarrow>
     (\<forall>k r. sender g k = Some r \<longrightarrow> r < length (runners g)) \<and>
     (\<forall>k r. receiver g k = Some r \<longrightarrow> r < length (runners g)) \<and>
     (\<forall>k k' r. sender g k = Some r \<and> sender g k' = Some r \<longrightarrow> k = k') \<and>
     (\<forall>k k' r. receiver g k = Some r \<and> receiver g k' = Some r \<longrightarrow> k = k') \<and>
     (\<forall>k k' r. sender g k = Some r \<longrightarrow> receiver g k' \<noteq> Some r)"

section \<open>Properties of the synchronisers\<close>

lemma ack_calls_count: "count (ack_calls cs a) = count a - int (length cs)"
  by (induction cs arbitrary: a) (auto simp: ack_excecute_def Let_def)







lemma block_calls_append: "block_calls (cs @ ds) b = block_calls ds (block_calls cs b)"
  by (induction cs arbitrary: b) auto

lemma block_apply_event: "event b \<Longrightarrow> event (block_apply c b)"
  by (cases c) (auto simp: block_excecute_def restart_def asyncRestart_def)

lemma block_calls_event: "event b \<Longrightarrow> event (block_calls cs b)"
  by (induction cs arbitrary: b) (auto simp: block_apply_event)

lemma block_calls_blocked:
  "\<not> event b \<Longrightarrow> list_all (\<lambda>c. \<not> is_restart c) cs \<Longrightarrow>
   block_calls cs b = b\<lparr>suspended := suspended b @ excecute_callers cs\<rparr>"
proof (induction cs arbitrary: b)
  case Nil
  show ?case by simp
next
  case (Cons c cs)
  then show ?case by (cases c) (auto simp: block_excecute_def)
qed

lemma block_calls_released:
  "event b \<Longrightarrow> suspended b = [] \<Longrightarrow>
   suspended (block_calls cs b) = [] \<and>
   completed (block_calls cs b) = completed b @ excecute_callers cs"
proof (induction cs arbitrary: b)
  case Nil
  then show ?case by simp
next
  case (Cons c cs)
  then show ?case
    by (cases c) (auto simp: block_excecute_def restart_def asyncRestart_def)
qed

text \<open>
  C7: on a BlockSyncer no operation clears the latch; every \<^verbatim>\<open>excecute\<close> started
  before \<^verbatim>\<open>restart\<close> stays suspended and none completes; \<^verbatim>\<open>restart\<close> asserts the latch
  and releases every suspended caller; every \<^verbatim>\<open>excecute\<close> made afterwards, whatever calls
  \<open>ds\<close> came in between, completes at once and no caller is ever suspended again.
\<close>

theorem block_syncer_one_shot:
  assumes "list_all (\<lambda>c. \<not> is_restart c) cs"
  shows "(\<forall>b ds. event b \<longrightarrow> event (block_calls ds b)) \<and>
     \<not> event (block_calls cs BlockSyncer) \<and>
     suspended (block_calls cs BlockSyncer) = excecute_callers cs \<and>
     completed (block_calls cs BlockSyncer) = [] \<and>
     event (restart (block_calls cs BlockSyncer)) \<and>
     suspended (block_calls (cs @ Restart # ds) BlockSyncer) = [] \<and>
     completed (block_calls (cs @ Restart # ds) BlockSyncer) = excecute_callers cs @ excecute_callers ds \<and>
     block_excecute c (block_calls (cs @ Restart # ds) BlockSyncer) =
       (block_calls (cs @ Restart # ds) BlockSyncer)
         \<lparr>completed := excecute_callers cs @ excecute_callers ds @ [c]\<rparr>"
proof -
  let ?b = "block_calls cs BlockSyncer"
  have blocked: "?b = BlockSyncer\<lparr>suspended := excecute_callers cs\<rparr>"
    using block_calls_blocked [OF _ assms, of BlockSyncer] by (simp add: BlockSyncer_def)
  let ?r = "restart ?b"
  have r: "event ?r" "suspended ?r = []" "completed ?r = excecute_callers cs"
    unfolding blocked by (simp_all add: restart_def BlockSyncer_def)
  let ?e = "block_calls (cs @ Restart # ds) BlockSyncer"
  have e: "?e = block_calls ds ?r" by (simp add: block_calls_append)
  have rel: "suspended ?e = []" "completed ?e = excecute_callers cs @ excecute_callers ds"
    using block_calls_released [OF r(1) r(2), of ds] by (simp_all add: e r(3))
  have ev: "event ?e" unfolding e by (rule block_calls_event [OF r(1)])
  have "block_excecute c ?e = ?e\<lparr>completed := excecute_callers cs @ excecute_callers ds @ [c]\<rparr>"
    using ev by (simp add: block_excecute_def rel)
  moreover have "\<not> event ?b" "suspended ?b = excecute_callers cs" "completed ?b = []"
    unfolding blocked by (simp_all add: BlockSyncer_def)
  ultimately show ?thesis using r(1) rel by (simp add: block_calls_event)
qed

theorem block_syncer_one_shot_witness:
  "suspended (block_calls [Excecute 1, Excecute 2] BlockSyncer) = [1, 2] \<and>
   completed (block_calls [Excecute 1, Excecute 2] BlockSyncer) = [] \<and>
   suspended (block_calls ([Excecute 1, Excecute 2] @ Restart # [Excecute 3]) BlockSyncer) = [] \<and>
   completed (block_calls ([Excecute 1, Excecute 2] @ Restart # [Excecute 3]) BlockSyncer) = [1, 2, 3]"
  using block_syncer_one_shot [of "[Excecute 1, Excecute 2]" "[Excecute 3]" 4]
  by simp

section \<open>Properties of OrderedRunner\<close>

subsection \<open>The loop of OrderedRunner\<close>

lemma run_loop_suspended: "maintask s \<noteq> Top \<Longrightarrow> run_loop s = Some s"
  by (subst run_loop.simps) simp

lemma iteration_livelocked: "livelocked s \<Longrightarrow> livelocked (iteration s)"
  by (simp add: livelocked_def iteration_def drain_def except_def)

lemma run_loop_not_livelocked:
  assumes "run_loop s = Some s'"
  shows "\<not> livelocked s"
proof (rule run_loop.raw_induct [where P = "\<lambda>s s'. \<not> livelocked s", OF _ assms])
  fix f s s'
  assume IH: "\<And>s s'. f s = Some s' \<Longrightarrow> \<not> livelocked s"
    and eq: "(if maintask s = Top then f (iteration s) else Some s) = Some s'"
  show "\<not> livelocked s"
  proof
    assume l: "livelocked s"
    then have "maintask s = Top" by (simp add: livelocked_def)
    with eq have "f (iteration s) = Some s'" by simp
    then have "\<not> livelocked (iteration s)" by (rule IH)
    with l show False by (simp add: iteration_livelocked)
  qed
qed

lemma run_loop_livelock: "livelocked s \<Longrightarrow> run_loop s = None"
  using run_loop_not_livelocked [of s] by (cases "run_loop s") auto

lemma iteration_suspends:
  "maintask s = Top \<Longrightarrow> \<not> livelocked s \<Longrightarrow> maintask (iteration s) \<noteq> Top"
  by (auto simp: livelocked_def iteration_def drain_def start_task_def Let_def split: list.splits)

lemma run_loop_Top:
  "maintask s = Top \<Longrightarrow> run_loop s = (if livelocked s then None else Some (iteration s))"
  by (subst run_loop.simps)
    (auto simp: run_loop_livelock iteration_livelocked iteration_suspends run_loop_suspended)

lemmas loop_defs = run_loop_Top run_loop_suspended livelocked_def iteration_def drain_def
  start_task_def except_def after_task_def Let_def

lemma serial_append: "serial (xs @ ys) = serial xs @ serial ys"
  by (induction xs) auto

lemma submitted_append: "submitted (xs @ ys) = submitted xs @ submitted ys"
  by (induction xs rule: submitted.induct) auto

lemma exec_with_append:
  "exec_with stp (xs @ ys) s = (case exec_with stp xs s of None \<Rightarrow> None | Some s' \<Rightarrow> exec_with stp ys s')"
  by (induction xs arbitrary: s) (auto split: option.splits)

lemma ordered_init: "ordered [] (OrderedRunner lg)"
  by (simp add: ordered_def sound_def OrderedRunner_def)

lemma sound_step:
  assumes "sound s" and "step e s = Some s'"
  shows "sound s'"
proof (cases e)
  case (Submit fnc args)
  with assms show ?thesis by (auto simp: sound_def run_def split: coro.splits)
next
  case Wake
  with assms show ?thesis
    by (cases "maintask s") (auto simp: sound_def loop_defs split: if_splits list.splits)
next
  case Complete
  with assms show ?thesis
    by (cases "maintask s")
      (auto simp: sound_def loop_defs split: if_splits list.splits outcome.splits)
qed

lemma ordered_step:
  assumes "ordered sub s" and "step e s = Some s'"
  shows "ordered (sub @ submitted [e]) s'"
proof -
  from assms(1) obtain dn where snd: "sound s"
    and dn: "sub = dn @ awaiting (maintask s) @ tasks s" "trace s = serial dn @ prologue (maintask s)"
    by (auto simp: ordered_def)
  have s': "sound s'" using snd assms(2) by (rule sound_step)
  have "\<exists>dn'. sub @ submitted [e] = dn' @ awaiting (maintask s') @ tasks s' \<and>
      trace s' = serial dn' @ prologue (maintask s')"
  proof (cases e)
    case (Submit fnc args)
    with assms(2) dn show ?thesis by (auto simp: run_def)
  next
    case Wake
    with assms(2) dn snd show ?thesis
      by (cases "maintask s") (auto simp: sound_def loop_defs split: if_splits list.splits)
  next
    case Complete
    show ?thesis
    proof (cases "maintask s")
      case (Awaiting t)
      with assms(2) Complete dn show ?thesis
        by (auto simp: loop_defs serial_append split: if_splits list.splits outcome.splits)
    qed (use assms(2) Complete dn in auto)
  qed
  with s' show ?thesis by (simp add: ordered_def)
qed

lemma ordered_exec:
  "ordered sub s \<Longrightarrow> exec evs s = Some s' \<Longrightarrow> ordered (sub @ submitted evs) s'"
proof (induction evs arbitrary: sub s)
  case Nil
  then show ?case by simp
next
  case (Cons e evs)
  from Cons.prems(2) obtain s1 where s1: "step e s = Some s1" "exec evs s1 = Some s'"
    by (auto split: option.splits)
  have "ordered (sub @ submitted [e]) s1" using Cons.prems(1) s1(1) by (rule ordered_step)
  then have "ordered ((sub @ submitted [e]) @ submitted evs) s'" using s1(2) by (rule Cons.IH)
  moreover have "submitted (e # evs) = submitted [e] @ submitted evs"
    using submitted_append [of "[e]" evs] by simp
  ultimately show ?case by simp
qed





lemma started_append: "started (xs @ ys) = started xs @ started ys"
  by (induction xs rule: started.induct) auto

lemma started_body: "started (body t) = []"
  by (cases t rule: body.cases) (auto split: outcome.splits)

lemma started_serial: "started (serial ts) = ts"
  by (induction ts) (auto simp: started_append started_body)

lemma started_prologue: "started (prologue c) = awaiting c"
  by (cases c) (auto simp: started_body)



text \<open>
  C9: at every point of the operation of an OrderedRunner, \<^verbatim>\<open>queued()\<close> is the names of
  the submitted tasks that have not been started, in submission order; the task being
  executed is the last one started and is not part of the queue.
\<close>

theorem queued_waiting_only:
  assumes "exec evs (OrderedRunner lg) = Some s"
  shows "queued s = map (\<lambda>t. name_of (fst t)) (drop (length (started (trace s))) (submitted evs)) \<and>
     tasks s = drop (length (started (trace s))) (submitted evs) \<and>
     started (trace s) = take (length (started (trace s))) (submitted evs) \<and>
     (\<forall>t. maintask s = Awaiting t \<longrightarrow> started (trace s) \<noteq> [] \<and> last (started (trace s)) = t)"
proof -
  have "ordered (submitted evs) s"
    using ordered_exec [OF ordered_init assms] by simp
  then obtain dn where dn: "submitted evs = dn @ awaiting (maintask s) @ tasks s"
      "trace s = serial dn @ prologue (maintask s)"
    by (auto simp: ordered_def)
  have st: "started (trace s) = dn @ awaiting (maintask s)"
    by (simp add: dn(2) started_append started_serial started_prologue)
  have sub: "submitted evs = started (trace s) @ tasks s" by (simp add: st dn(1))
  show ?thesis
    unfolding queued_def by (subst (1 2 3) sub) (auto simp: st)
qed

theorem queued_waiting_only_witness:
  "\<exists>s. exec [Submit (Plain (Fn ''a'' Returns)) [1], Submit (Plain (Fn ''b'' Returns)) [2], Wake,
              Submit (Plain (Fn ''c'' Returns)) [3]] (OrderedRunner []) = Some s \<and>
        maintask s = Awaiting (Plain (Fn ''a'' Returns), [1]) \<and>
        queued s = [''b'', ''c'']"
proof -
  let ?evs = "[Submit (Plain (Fn ''a'' Returns)) [1], Submit (Plain (Fn ''b'' Returns)) [2], Wake,
              Submit (Plain (Fn ''c'' Returns)) [3]]"
  obtain s where e: "exec ?evs (OrderedRunner []) = Some s"
    and t: "maintask s = Awaiting (Plain (Fn ''a'' Returns), [1])"
      "trace s = [Started (Plain (Fn ''a'' Returns), [1])]"
    by (simp add: loop_defs OrderedRunner_def run_def)
  from queued_waiting_only [OF e] t e show ?thesis by simp
qed

subsection \<open>waitTillCloseout and close\<close>











section \<open>Properties of BatchedOrderedRunner\<close>

subsection \<open>The loop of BatchedOrderedRunner\<close>

lemma brun_loop_suspended: "maintask s \<noteq> Top \<Longrightarrow> brun_loop s = Some s"
  by (subst brun_loop.simps) simp

lemma process_suspends: "maintask (process t s) \<noteq> Top"
  by (auto simp: process_def bexcept_def Let_def split: option.splits prod.splits sum.splits)

lemma biteration_suspends: "maintask (biteration s) \<noteq> Top"
  by (auto simp: biteration_def bdrain_def bexcept_def process_suspends Let_def split: list.splits)

lemma brun_loop_Top: "maintask s = Top \<Longrightarrow> brun_loop s = Some (biteration s)"
  by (subst brun_loop.simps) (simp add: brun_loop_suspended biteration_suspends)

lemma batch_loop_other:
  "name_of (fst bt) \<noteq> cur \<Longrightarrow> batch_loop cur bt q = ([], Inr (Some bt), q)"
  by (simp add: batch_loop.simps)

lemma batch_loop_returns:
  assumes "list_all returns (bt # q)" and "name_of (fst bt) = cur"
  shows "batch_loop cur bt q =
     (bt # takeWhile (\<lambda>u. name_of (fst u) = cur) q,
      Inr (case dropWhile (\<lambda>u. name_of (fst u) = cur) q of [] \<Rightarrow> None | u # r \<Rightarrow> Some u),
      tl (dropWhile (\<lambda>u. name_of (fst u) = cur) q))"
  using assms
proof (induction q arbitrary: bt)
  case Nil
  then show ?case by (simp add: batch_loop.simps returns_def)
next
  case (Cons t q)
  show ?case
  proof (cases "name_of (fst t) = cur")
    case True
    have "list_all returns (t # q)" using Cons.prems(1) by simp
    from Cons.IH [OF this True] Cons.prems True show ?thesis
      by (subst batch_loop.simps) (simp add: returns_def)
  next
    case False
    with Cons.prems show ?thesis
      by (subst batch_loop.simps) (simp add: returns_def batch_loop_other)
  qed
qed

lemma list_all_dropWhile: "list_all P xs \<Longrightarrow> list_all P (dropWhile Q xs)"
  by (induction xs) auto

lemma head_tail_again:
  "(case (case d of [] \<Rightarrow> None | u # r \<Rightarrow> Some u) of None \<Rightarrow> tl d | Some t \<Rightarrow> t # tl d) = d"
  by (cases d) simp_all

lemma head_none_tail:
  "(case d of [] \<Rightarrow> None | u # r \<Rightarrow> Some u) = None \<longleftrightarrow> d = []"
  by (cases d) simp_all

lemma process_expected:
  assumes "\<forall>n h. batchHandler s n = Some h \<longrightarrow> behaviour h = Returns"
    and "list_all returns (t # tasks s)"
  shows "good (process t s) \<and> batchHandler (process t s) = batchHandler s \<and>
     length (pending (process t s)) \<le> length (tasks s) \<and>
     expected (process t s) = trace s @ spec_batched_trace (batchHandler s) (t # tasks s) \<and>
     syncEvent (process t s) = syncEvent s \<and> finishEvent (process t s) = finishEvent s \<and>
     logger (process t s) = logger s"
proof (cases "batchHandler s (name_of (fst t))")
  case None
  then have p: "process t s =
      s\<lparr>current := name_of (fst t), trace := trace s @ Started t # body t, maintask := Awaiting t\<rparr>"
    by (simp add: process_def)
  show ?thesis unfolding p using assms None by (simp add: good_def pending_def expected_def)
next
  case (Some h)
  let ?P = "\<lambda>u. name_of (fst u) = name_of (fst t)"
  let ?d = "dropWhile ?P (tasks s)"
  have b: "batch_loop (name_of (fst t)) t (tasks s) =
     (t # takeWhile ?P (tasks s), Inr (case ?d of [] \<Rightarrow> None | u # r \<Rightarrow> Some u), tl ?d)"
    using assms(2) by (intro batch_loop_returns) simp_all
  have p: "process t s =
      s\<lparr>current := name_of (fst t), tasks := tl ?d,
        trace := trace s @ map Invoked (t # takeWhile ?P (tasks s)) @ [AwaitedHandler h],
        maintask := AwaitingHandler h (case ?d of [] \<Rightarrow> None | u # r \<Rightarrow> Some u)\<rparr>"
    using Some b by (simp add: process_def)
  have pd: "pending (process t s) = ?d"
    unfolding p by (simp add: pending_def head_tail_again)
  have same: "same_name t = ?P" by (auto simp: same_name_def fun_eq_iff)
  have "list_all returns ?d" using assms(2) by (simp add: list_all_dropWhile)
  moreover have "behaviour h = Returns" using assms(1) Some by blast
  moreover have "length ?d \<le> length (tasks s)" by (rule length_dropWhile_le)
  moreover have "expected (process t s) = trace s @ spec_batched_trace (batchHandler s) (t # tasks s)"
    unfolding expected_def pd unfolding p using Some by (simp add: same)
  moreover have "maintask (process t s) = AwaitingHandler h (case ?d of [] \<Rightarrow> None | u # r \<Rightarrow> Some u)"
    "batchHandler (process t s) = batchHandler s" "syncEvent (process t s) = syncEvent s"
    "finishEvent (process t s) = finishEvent s" "logger (process t s) = logger s"
    unfolding p by simp_all
  moreover have "good (process t s)"
    unfolding good_def pd using assms(1) calculation(1,2)
    by (simp add: p head_none_tail del: dropWhile_eq_Nil_conv)
  ultimately show ?thesis by (simp add: pd)
qed


lemma bexec_Complete_idle:
  "maintask s = WaitSync \<Longrightarrow> bexec (replicate n Complete) s = Some s"
  by (induction n) auto

lemma complete_step:
  assumes "good s"
  shows "\<exists>s1. bstep Complete s = Some s1 \<and> expected s1 = expected s \<and> logger s1 = logger s \<and>
     ((good s1 \<and> length (pending s1) < length (pending s)) \<or>
      (maintask s1 = WaitSync \<and> tasks s1 = [] \<and> finishEvent s1 \<and> trace s1 = expected s))"
proof -
  from assms have H: "\<forall>n h. batchHandler s n = Some h \<longrightarrow> behaviour h = Returns"
    and pr: "list_all returns (pending s)"
    by (simp_all add: good_def)
  show ?thesis
  proof (cases "maintask s")
    case (Awaiting t)
    with assms have rt: "returns t" by (simp add: good_def)
    show ?thesis
    proof (cases "tasks s")
      case Nil
      with Awaiting rt show ?thesis
        by (simp add: bafter_task_def returns_def leave_drain_def brun_loop_Top biteration_def
            expected_def pending_def)
    next
      case (Cons t' q)
      let ?s1 = "s\<lparr>trace := trace s @ [Ended t], tasks := q\<rparr>"
      have st: "bstep Complete s = Some (process t' ?s1)"
        using Awaiting rt Cons by (simp add: bafter_task_def returns_def brun_loop_suspended process_suspends)
      have "list_all returns (t' # tasks ?s1)" using pr Awaiting Cons by (simp add: pending_def)
      from process_expected [of ?s1 t', OF _ this] H
      have pe: "good (process t' ?s1)" "length (pending (process t' ?s1)) \<le> length q"
        "expected (process t' ?s1) = (trace s @ [Ended t]) @ spec_batched_trace (batchHandler s) (t' # q)"
        "logger (process t' ?s1) = logger s"
        by simp_all
      have ex: "expected s = (trace s @ [Ended t]) @ spec_batched_trace (batchHandler s) (t' # q)"
        and ln: "length (pending s) = Suc (length q)"
        using Awaiting Cons by (simp_all add: expected_def pending_def)
      show ?thesis unfolding st using pe unfolding ex ln by simp
    qed
  next
    case (AwaitingHandler h bt)
    with assms have rh: "behaviour h = Returns" and em: "bt = None \<longrightarrow> tasks s = []"
      by (simp_all add: good_def)
    show ?thesis
    proof (cases bt)
      case None
      with AwaitingHandler rh em show ?thesis
        by (simp add: after_handler_def leave_drain_def brun_loop_Top biteration_def
            expected_def pending_def)
    next
      case (Some t)
      have st: "bstep Complete s = Some (process t s)"
        using AwaitingHandler rh Some by (simp add: after_handler_def brun_loop_suspended process_suspends)
      have "list_all returns (t # tasks s)" using pr AwaitingHandler Some by (simp add: pending_def)
      from process_expected [of s t, OF H this]
      have pe: "good (process t s)" "length (pending (process t s)) \<le> length (tasks s)"
        "expected (process t s) = trace s @ spec_batched_trace (batchHandler s) (t # tasks s)"
        "logger (process t s) = logger s"
        by simp_all
      have ex: "expected s = trace s @ spec_batched_trace (batchHandler s) (t # tasks s)"
        and ln: "length (pending s) = Suc (length (tasks s))"
        using AwaitingHandler Some by (simp_all add: expected_def pending_def)
      show ?thesis unfolding st using pe unfolding ex ln by simp
    qed
  qed (use assms in \<open>auto simp: good_def\<close>)
qed

lemma drain_all:
  "good s \<Longrightarrow> length (pending s) < n \<Longrightarrow>
   \<exists>s'. bexec (replicate n Complete) s = Some s' \<and> trace s' = expected s \<and> tasks s' = [] \<and>
        finishEvent s' \<and> maintask s' = WaitSync \<and> logger s' = logger s"
proof (induction n arbitrary: s)
  case 0
  then show ?case by simp
next
  case (Suc n)
  from complete_step [OF Suc.prems(1)] obtain s1 where
    s1: "bstep Complete s = Some s1" "expected s1 = expected s" "logger s1 = logger s"
      "(good s1 \<and> length (pending s1) < length (pending s)) \<or>
       (maintask s1 = WaitSync \<and> tasks s1 = [] \<and> finishEvent s1 \<and> trace s1 = expected s)"
    by blast
  from s1(4) show ?case
  proof
    assume a: "good s1 \<and> length (pending s1) < length (pending s)"
    then have "length (pending s1) < n" using Suc.prems(2) by simp
    from Suc.IH [OF _ this] a s1(1,2,3) show ?thesis by auto
  next
    assume a: "maintask s1 = WaitSync \<and> tasks s1 = [] \<and> finishEvent s1 \<and> trace s1 = expected s"
    then have "bexec (replicate n Complete) s1 = Some s1" by (simp add: bexec_Complete_idle)
    with a s1(1,3) show ?thesis by simp
  qed
qed

lemma bexec_submits:
  "bexec (map (\<lambda>t. Submit (fst t) (snd t)) ts) s =
     Some (s\<lparr>tasks := tasks s @ ts, syncEvent := syncEvent s \<or> ts \<noteq> []\<rparr>)"
proof (induction ts arbitrary: s)
  case Nil
  show ?case by simp
next
  case (Cons t ts)
  show ?case by (simp add: Cons.IH run_def)
qed

text \<open>
  C2: a queue \<open>ts\<close> is submitted to a BatchedOrderedRunner with the handler table \<open>H\<close>, the
  loop is woken and every await completes; tasks and handlers return. The loop empties the
  queue and its trace is the one the specification gives: each maximal run of tasks of a
  name with a handler is called task by task, without await, and followed by one await of
  the handler; every other task is awaited.
\<close>

theorem batched_runs:
  assumes "list_all returns ts" and "\<forall>n h. H n = Some h \<longrightarrow> behaviour h = Returns"
  shows "\<exists>s. bexec (map (\<lambda>t. Submit (fst t) (snd t)) ts @ Wake # replicate (length ts) Complete)
            ((BatchedOrderedRunner lg)\<lparr>batchHandler := H\<rparr>) = Some s \<and>
          trace s = spec_batched_trace H ts \<and> tasks s = [] \<and> finishEvent s \<and> logger s = lg"
proof -
  let ?s0 = "(BatchedOrderedRunner lg)\<lparr>batchHandler := H\<rparr>"
  let ?s1 = "?s0\<lparr>tasks := ts, syncEvent := ts \<noteq> []\<rparr>"
  have sub: "bexec (map (\<lambda>t. Submit (fst t) (snd t)) ts) ?s0 = Some ?s1"
    by (simp add: bexec_submits BatchedOrderedRunner_def)
  have "\<exists>s. bexec (Wake # replicate (length ts) Complete) ?s1 = Some s \<and>
          trace s = spec_batched_trace H ts \<and> tasks s = [] \<and> finishEvent s \<and> logger s = lg"
  proof (cases ts)
    case Nil
    then show ?thesis
      by (simp add: BatchedOrderedRunner_def brun_loop_Top biteration_def)
  next
    case (Cons t q)
    let ?s2 = "?s1\<lparr>finishEvent := False, maintask := Top, tasks := q\<rparr>"
    have w: "bstep Wake ?s1 = Some (process t ?s2)"
      using Cons
      by (simp add: BatchedOrderedRunner_def brun_loop_Top biteration_def bdrain_def
          brun_loop_suspended process_suspends)
    have "list_all returns (t # tasks ?s2)" using assms(1) Cons by simp
    from process_expected [of ?s2 t, OF _ this] assms(2)
    have p: "good (process t ?s2)" "length (pending (process t ?s2)) \<le> length q"
      "expected (process t ?s2) = spec_batched_trace H ts" "logger (process t ?s2) = lg"
      using Cons by (simp_all add: BatchedOrderedRunner_def)
    have "length (pending (process t ?s2)) < length ts" using p(2) Cons by simp
    from drain_all [OF p(1) this] p(3,4) w show ?thesis by auto
  qed
  with sub show ?thesis by (simp add: exec_with_append)
qed

theorem batched_runs_witness:
  "(\<exists>s. bexec [Submit (Plain (Fn ''X'' Returns)) [1], Submit (Plain (Fn ''X'' Returns)) [2],
               Submit (Plain (Fn ''X'' Returns)) [3], Submit (Plain (Fn ''Y'' Returns)) [4],
               Wake, Complete, Complete, Complete, Complete]
          (registerBatchHandler ''X'' (Fn ''H'' Returns) (BatchedOrderedRunner [])) = Some s \<and>
        trace s = [Invoked (Plain (Fn ''X'' Returns), [1]), Invoked (Plain (Fn ''X'' Returns), [2]),
                   Invoked (Plain (Fn ''X'' Returns), [3]), AwaitedHandler (Fn ''H'' Returns),
                   Started (Plain (Fn ''Y'' Returns), [4]), Ended (Plain (Fn ''Y'' Returns), [4])]) \<and>
   (\<exists>s. bexec [Submit (Plain (Fn ''X'' Returns)) [1], Submit (Plain (Fn ''Y'' Returns)) [2],
               Submit (Plain (Fn ''X'' Returns)) [3], Wake, Complete, Complete, Complete]
          (registerBatchHandler ''X'' (Fn ''H'' Returns) (BatchedOrderedRunner [])) = Some s \<and>
        trace s = [Invoked (Plain (Fn ''X'' Returns), [1]), AwaitedHandler (Fn ''H'' Returns),
                   Started (Plain (Fn ''Y'' Returns), [2]), Ended (Plain (Fn ''Y'' Returns), [2]),
                   Invoked (Plain (Fn ''X'' Returns), [3]), AwaitedHandler (Fn ''H'' Returns)])"
proof -
  let ?H = "[''X'' \<mapsto> Fn ''H'' Returns]"
  have h: "\<forall>n h. ?H n = Some h \<longrightarrow> behaviour h = Returns" by simp
  have r: "registerBatchHandler ''X'' (Fn ''H'' Returns) (BatchedOrderedRunner []) =
      (BatchedOrderedRunner [])\<lparr>batchHandler := ?H\<rparr>"
    by (simp add: registerBatchHandler_def BatchedOrderedRunner_def)
  let ?a = "[(Plain (Fn ''X'' Returns), [1::nat]), (Plain (Fn ''X'' Returns), [2]),
      (Plain (Fn ''X'' Returns), [3]), (Plain (Fn ''Y'' Returns), [4])]"
  let ?b = "[(Plain (Fn ''X'' Returns), [1::nat]), (Plain (Fn ''Y'' Returns), [2]),
      (Plain (Fn ''X'' Returns), [3])]"
  have a: "list_all returns ?a" and b: "list_all returns ?b" by (simp_all add: returns_def)
  have la: "map (\<lambda>t. Submit (fst t) (snd t)) ?a @ Wake # replicate (length ?a) Complete =
      [Submit (Plain (Fn ''X'' Returns)) [1], Submit (Plain (Fn ''X'' Returns)) [2],
       Submit (Plain (Fn ''X'' Returns)) [3], Submit (Plain (Fn ''Y'' Returns)) [4],
       Wake, Complete, Complete, Complete, Complete]"
    by simp
  have lb: "map (\<lambda>t. Submit (fst t) (snd t)) ?b @ Wake # replicate (length ?b) Complete =
      [Submit (Plain (Fn ''X'' Returns)) [1], Submit (Plain (Fn ''Y'' Returns)) [2],
       Submit (Plain (Fn ''X'' Returns)) [3], Wake, Complete, Complete, Complete]"
    by simp
  have sa: "spec_batched_trace ?H ?a =
      [Invoked (Plain (Fn ''X'' Returns), [1]), Invoked (Plain (Fn ''X'' Returns), [2]),
       Invoked (Plain (Fn ''X'' Returns), [3]), AwaitedHandler (Fn ''H'' Returns),
       Started (Plain (Fn ''Y'' Returns), [4]), Ended (Plain (Fn ''Y'' Returns), [4])]"
    by (simp add: same_name_def)
  have sb: "spec_batched_trace ?H ?b =
      [Invoked (Plain (Fn ''X'' Returns), [1]), AwaitedHandler (Fn ''H'' Returns),
       Started (Plain (Fn ''Y'' Returns), [2]), Ended (Plain (Fn ''Y'' Returns), [2]),
       Invoked (Plain (Fn ''X'' Returns), [3]), AwaitedHandler (Fn ''H'' Returns)]"
    by (simp add: same_name_def)
  from batched_runs [OF a h, of "[]"] batched_runs [OF b h, of "[]"]
  show ?thesis unfolding la lb sa sb r [symmetric] by blast
qed

text \<open>
  C4 at its failing inputs. BatchedOrderedRunner: the task \<open>f\<close> raises; the except clause
  raises AttributeError, so nothing is logged, the coroutine terminates, and \<open>g\<close>, submitted
  after \<open>f\<close>, is never executed, also not when it is submitted again. OrderedRunner: the
  task that raises is the last of the queue; the loop then never suspends again.
\<close>

theorem loop_does_not_survive_exception:
  "bexec [Submit (Plain (Fn ''f'' (Raises ''boom''))) [], Submit (Plain (Fn ''g'' Returns)) [],
          Wake, Complete, Complete, Submit (Plain (Fn ''g'' Returns)) [], Wake, Complete]
     (BatchedOrderedRunner []) =
     Some \<lparr>logger = [], tasks = [(Plain (Fn ''g'' Returns), []), (Plain (Fn ''g'' Returns), [])],
       syncEvent = True, finishEvent = False, current = ''f'', shutdown = False,
       maintask = Failed AttributeError,
       trace = [Started (Plain (Fn ''f'' (Raises ''boom'')), []), Ended (Plain (Fn ''f'' (Raises ''boom'')), [])],
       batchHandler = Map.empty\<rparr> \<and>
   exec [Submit (Plain (Fn ''f'' (Raises ''boom''))) [], Wake, Complete] (OrderedRunner []) = None"
  by (simp add: BatchedOrderedRunner_def OrderedRunner_def run_def brun_loop_Top brun_loop_suspended
      biteration_def bdrain_def process_def bafter_task_def bexcept_def loop_defs)

lemma ordered_runner_continues_after_error:
  "exec [Submit (Plain (Fn ''f'' (Raises ''boom''))) [], Submit (Plain (Fn ''g'' Returns)) [],
          Wake, Complete, Complete] (OrderedRunner []) =
     Some \<lparr>logger = [TaskError ''boom''], tasks = [], syncEvent = False, finishEvent = True,
       current = ''g'', shutdown = False, maintask = WaitSync,
       trace = [Started (Plain (Fn ''f'' (Raises ''boom'')), []), Ended (Plain (Fn ''f'' (Raises ''boom'')), []),
                Started (Plain (Fn ''g'' Returns), []), Ended (Plain (Fn ''g'' Returns), [])]\<rparr>"
  by (simp add: OrderedRunner_def run_def loop_defs)

section \<open>Properties of the facade and the registry\<close>

text \<open>
  C3: \<^verbatim>\<open>run(fnc, args)\<close> on a facade changes the runner the facade refers to and no other:
  it submits the closure \<^verbatim>\<open>wrapper\<close> of \<open>fnc\<close> and the handler when the name of \<open>fnc\<close> is in
  the table of the facade, and \<open>fnc\<close> itself otherwise. The wrapper calls \<open>fnc\<close> without await
  and, when that returns, awaits the handler.
\<close>

theorem facade_run_submits:
  assumes "docRunner fa < length rs"
  shows "facade_run fnc args fa rs ! docRunner fa =
       run (case handlerTable fa (fname fnc) of
              Some handler \<Rightarrow> Wrapper fnc handler
            | None \<Rightarrow> Plain fnc) args (rs ! docRunner fa) \<and>
     length (facade_run fnc args fa rs) = length rs \<and>
     (\<forall>i. i \<noteq> docRunner fa \<longrightarrow> facade_run fnc args fa rs ! i = rs ! i) \<and>
     (\<forall>handler.
        body (Wrapper fnc handler, args) =
          Invoked (Plain fnc, args) # (if behaviour fnc = Returns then [AwaitedHandler handler] else []) \<and>
        await_outcome (Wrapper fnc handler) =
          (if behaviour fnc = Returns then behaviour handler else behaviour fnc))"
  using assms by (auto simp: facade_run_def split: option.splits outcome.splits)

theorem facade_run_submits_witness:
  "facade_run (Fn ''op'' Returns) [7]
      (facade_registerBatchHandler ''op'' (Fn ''H'' Returns) (DocumentBatchedOrderedRunner 0))
      [OrderedRunner []] ! 0 =
     run (Wrapper (Fn ''op'' Returns) (Fn ''H'' Returns)) [7] (OrderedRunner []) \<and>
   facade_run (Fn ''other'' Returns) [7]
      (facade_registerBatchHandler ''op'' (Fn ''H'' Returns) (DocumentBatchedOrderedRunner 0))
      [OrderedRunner []] ! 0 =
     run (Plain (Fn ''other'' Returns)) [7] (OrderedRunner []) \<and>
   (\<exists>s. exec [Wake, Complete] (run (Wrapper (Fn ''op'' Returns) (Fn ''H'' Returns)) [7] (OrderedRunner [])) = Some s \<and>
      trace s = [Started (Wrapper (Fn ''op'' Returns) (Fn ''H'' Returns), [7]),
                 Invoked (Plain (Fn ''op'' Returns), [7]), AwaitedHandler (Fn ''H'' Returns),
                 Ended (Wrapper (Fn ''op'' Returns) (Fn ''H'' Returns), [7])])"
proof -
  let ?fa = "facade_registerBatchHandler ''op'' (Fn ''H'' Returns) (DocumentBatchedOrderedRunner 0)"
  have d: "docRunner ?fa < length [OrderedRunner []]"
    by (simp add: facade_registerBatchHandler_def DocumentBatchedOrderedRunner_def)
  have t: "handlerTable ?fa ''op'' = Some (Fn ''H'' Returns)" "handlerTable ?fa ''other'' = None"
    "docRunner ?fa = 0"
    by (simp_all add: facade_registerBatchHandler_def DocumentBatchedOrderedRunner_def)
  have e: "\<exists>s. exec [Wake, Complete] (run (Wrapper (Fn ''op'' Returns) (Fn ''H'' Returns)) [7] (OrderedRunner [])) = Some s \<and>
      trace s = [Started (Wrapper (Fn ''op'' Returns) (Fn ''H'' Returns), [7]),
                 Invoked (Plain (Fn ''op'' Returns), [7]), AwaitedHandler (Fn ''H'' Returns),
                 Ended (Wrapper (Fn ''op'' Returns) (Fn ''H'' Returns), [7])]"
    by (simp add: loop_defs OrderedRunner_def run_def)
  from facade_run_submits [OF d, of "Fn ''op'' Returns" "[7]"]
    facade_run_submits [OF d, of "Fn ''other'' Returns" "[7]"] e
  show ?thesis by (simp add: t)
qed

lemma reg_inv_init: "reg_inv DocumentRunner"
  by (simp add: reg_inv_def DocumentRunner_def)

lemma reg_inv_apply: "reg_inv g \<Longrightarrow> reg_inv (reg_apply c g)"
proof (cases c)
  case (GetSender k lg)
  assume "reg_inv g"
  then show ?thesis
    unfolding GetSender reg_inv_def
    by (cases "sender g k") (auto simp: getSenderRunner_def Let_def less_Suc_eq)
next
  case (GetReceiver k lg)
  assume "reg_inv g"
  then show ?thesis
    unfolding GetReceiver reg_inv_def
    by (cases "receiver g k") (auto simp: getReceiverRunner_def Let_def less_Suc_eq)
qed

lemma reg_inv_calls: "reg_inv g \<Longrightarrow> reg_inv (reg_calls cs g)"
  by (induction cs arbitrary: g) (auto simp: reg_inv_apply)

lemma sender_kept: "sender g k = Some r \<Longrightarrow> sender (reg_apply c g) k = Some r"
  by (cases c) (auto simp: getSenderRunner_def getReceiverRunner_def Let_def split: option.splits)

lemma receiver_kept: "receiver g k = Some r \<Longrightarrow> receiver (reg_apply c g) k = Some r"
  by (cases c) (auto simp: getSenderRunner_def getReceiverRunner_def Let_def split: option.splits)

lemma sender_kept_calls: "sender g k = Some r \<Longrightarrow> sender (reg_calls cs g) k = Some r"
  by (induction cs arbitrary: g) (auto simp: sender_kept)

lemma receiver_kept_calls: "receiver g k = Some r \<Longrightarrow> receiver (reg_calls cs g) k = Some r"
  by (induction cs arbitrary: g) (auto simp: receiver_kept)

lemma runners_kept: "\<exists>more. runners (reg_apply c g) = runners g @ more"
  by (cases c) (auto simp: getSenderRunner_def getReceiverRunner_def Let_def split: option.splits)

lemma runners_kept_calls: "\<exists>more. runners (reg_calls cs g) = runners g @ more"
proof (induction cs arbitrary: g)
  case Nil
  show ?case by simp
next
  case (Cons c cs)
  from runners_kept [of c g] obtain m1 where "runners (reg_apply c g) = runners g @ m1" by blast
  moreover from Cons [of "reg_apply c g"] obtain m2 where
    "runners (reg_calls cs (reg_apply c g)) = runners (reg_apply c g) @ m2" by blast
  ultimately show ?case by simp
qed

text \<open>
  C8: after any calls of the registry, a call with a key that the table of the role does not
  hold creates a runner at a new reference and returns a facade on it; every later call with
  the same key and role, whatever calls came in between, returns a facade with an empty
  handler table on the same reference and leaves the registry as it is, and the store only
  grows; two keys of one role, and any two keys of different roles, hold different
  references.
\<close>

theorem registry_sharing:
  assumes "g = reg_calls cs DocumentRunner"
  shows "(sender g k = None \<longrightarrow>
        getSenderRunner k lg g =
          (DocumentBatchedOrderedRunner (length (runners g)),
           g\<lparr>sender := (sender g)(k \<mapsto> length (runners g)), runners := runners g @ [OrderedRunner lg]\<rparr>)) \<and>
     (receiver g k = None \<longrightarrow>
        getReceiverRunner k lg g =
          (DocumentBatchedOrderedRunner (length (runners g)),
           g\<lparr>receiver := (receiver g)(k \<mapsto> length (runners g)), runners := runners g @ [OrderedRunner lg]\<rparr>)) \<and>
     (\<forall>ds lg'. getSenderRunner k lg' (reg_calls ds (snd (getSenderRunner k lg g))) =
        (fst (getSenderRunner k lg g), reg_calls ds (snd (getSenderRunner k lg g))) \<and>
        (\<exists>more. runners (reg_calls ds (snd (getSenderRunner k lg g))) =
           runners (snd (getSenderRunner k lg g)) @ more)) \<and>
     (\<forall>ds lg'. getReceiverRunner k lg' (reg_calls ds (snd (getReceiverRunner k lg g))) =
        (fst (getReceiverRunner k lg g), reg_calls ds (snd (getReceiverRunner k lg g))) \<and>
        (\<exists>more. runners (reg_calls ds (snd (getReceiverRunner k lg g))) =
           runners (snd (getReceiverRunner k lg g)) @ more)) \<and>
     docRunner (fst (getSenderRunner k lg g)) < length (runners (snd (getSenderRunner k lg g))) \<and>
     docRunner (fst (getReceiverRunner k lg g)) < length (runners (snd (getReceiverRunner k lg g))) \<and>
     (\<forall>k' r r'. k \<noteq> k' \<and> sender g k = Some r \<and> sender g k' = Some r' \<longrightarrow> r \<noteq> r') \<and>
     (\<forall>k' r r'. k \<noteq> k' \<and> receiver g k = Some r \<and> receiver g k' = Some r' \<longrightarrow> r \<noteq> r') \<and>
     (\<forall>k' r r'. sender g k = Some r \<and> receiver g k' = Some r' \<longrightarrow> r \<noteq> r')"
proof -
  have inv: "reg_inv g" unfolding assms by (rule reg_inv_calls [OF reg_inv_init])
  have a: "sender g k = None \<longrightarrow>
        getSenderRunner k lg g =
          (DocumentBatchedOrderedRunner (length (runners g)),
           g\<lparr>sender := (sender g)(k \<mapsto> length (runners g)), runners := runners g @ [OrderedRunner lg]\<rparr>)"
    by (simp add: getSenderRunner_def Let_def)
  have b: "receiver g k = None \<longrightarrow>
        getReceiverRunner k lg g =
          (DocumentBatchedOrderedRunner (length (runners g)),
           g\<lparr>receiver := (receiver g)(k \<mapsto> length (runners g)), runners := runners g @ [OrderedRunner lg]\<rparr>)"
    by (simp add: getReceiverRunner_def Let_def)
  let ?gs = "snd (getSenderRunner k lg g)" and ?fs = "fst (getSenderRunner k lg g)"
  let ?gr = "snd (getReceiverRunner k lg g)" and ?fr = "fst (getReceiverRunner k lg g)"
  have s1: "sender ?gs k = Some (docRunner ?fs)" "?fs = DocumentBatchedOrderedRunner (docRunner ?fs)"
    by (auto simp: getSenderRunner_def DocumentBatchedOrderedRunner_def Let_def split: option.splits)
  have r1: "receiver ?gr k = Some (docRunner ?fr)" "?fr = DocumentBatchedOrderedRunner (docRunner ?fr)"
    by (auto simp: getReceiverRunner_def DocumentBatchedOrderedRunner_def Let_def split: option.splits)
  have c: "getSenderRunner k lg' (reg_calls ds ?gs) = (?fs, reg_calls ds ?gs)" for ds lg'
    using sender_kept_calls [OF s1(1), of ds] s1(2) by (simp add: getSenderRunner_def)
  have d: "getReceiverRunner k lg' (reg_calls ds ?gr) = (?fr, reg_calls ds ?gr)" for ds lg'
    using receiver_kept_calls [OF r1(1), of ds] r1(2) by (simp add: getReceiverRunner_def)
  have "reg_inv (reg_apply (GetSender k lg) g)" "reg_inv (reg_apply (GetReceiver k lg) g)"
    using inv by (rule reg_inv_apply)+
  then have e: "docRunner ?fs < length (runners ?gs)" "docRunner ?fr < length (runners ?gr)"
    using s1(1) r1(1) by (auto simp: reg_inv_def)
  have f: "\<forall>k' r r'. k \<noteq> k' \<and> sender g k = Some r \<and> sender g k' = Some r' \<longrightarrow> r \<noteq> r'"
    "\<forall>k' r r'. k \<noteq> k' \<and> receiver g k = Some r \<and> receiver g k' = Some r' \<longrightarrow> r \<noteq> r'"
    "\<forall>k' r r'. sender g k = Some r \<and> receiver g k' = Some r' \<longrightarrow> r \<noteq> r'"
    using inv unfolding reg_inv_def by blast+
  show ?thesis
    using a b c d e f runners_kept_calls [of _ ?gs] runners_kept_calls [of _ ?gr] by blast
qed

theorem registry_sharing_witness:
  "fst (getSenderRunner ''doc1'' [] (reg_calls [GetSender ''doc1'' [], GetReceiver ''doc1'' [], GetSender ''doc2'' []] DocumentRunner)) =
     DocumentBatchedOrderedRunner 0 \<and>
   fst (getReceiverRunner ''doc1'' [] (reg_calls [GetSender ''doc1'' [], GetReceiver ''doc1'' [], GetSender ''doc2'' []] DocumentRunner)) =
     DocumentBatchedOrderedRunner 1 \<and>
   fst (getSenderRunner ''doc2'' [] (reg_calls [GetSender ''doc1'' [], GetReceiver ''doc1'' [], GetSender ''doc2'' []] DocumentRunner)) =
     DocumentBatchedOrderedRunner 2 \<and>
   getSenderRunner ''doc3'' [] (reg_calls [GetSender ''doc1'' [], GetReceiver ''doc1'' [], GetSender ''doc2'' []] DocumentRunner) =
     (DocumentBatchedOrderedRunner 3,
      \<lparr>sender = [''doc1'' \<mapsto> 0, ''doc2'' \<mapsto> 2, ''doc3'' \<mapsto> 3], receiver = [''doc1'' \<mapsto> 1],
       runners = [OrderedRunner [], OrderedRunner [], OrderedRunner [], OrderedRunner []]\<rparr>)"
proof -
  let ?cs = "[GetSender ''doc1'' [], GetReceiver ''doc1'' [], GetSender ''doc2'' []]"
  let ?g = "reg_calls ?cs DocumentRunner"
  have g: "?g = \<lparr>sender = [''doc1'' \<mapsto> 0, ''doc2'' \<mapsto> 2], receiver = [''doc1'' \<mapsto> 1],
       runners = [OrderedRunner [], OrderedRunner [], OrderedRunner []]\<rparr>"
    by (simp add: DocumentRunner_def getSenderRunner_def getReceiverRunner_def eval_nat_numeral)
  have n: "sender ?g ''doc3'' = None" by (simp only: g) simp
  from registry_sharing [OF refl, of ?cs "''doc3''" "[]"] n
  have "getSenderRunner ''doc3'' [] ?g =
          (DocumentBatchedOrderedRunner (length (runners ?g)),
           ?g\<lparr>sender := (sender ?g)(''doc3'' \<mapsto> length (runners ?g)), runners := runners ?g @ [OrderedRunner []]\<rparr>)"
    by blast
  then show ?thesis unfolding g
    by (simp add: getSenderRunner_def getReceiverRunner_def eval_nat_numeral)
qed

end
